theory Spec2Isabelle
  imports Main "HOL-Library.Word" "HOL-Library.Sublist"
begin

section \<open>JavaScript values\<close>

text \<open>
  A JavaScript string is a sequence of UTF-16 code units. The \<open>value\<close> prop of the
  component is declared \<open>null | string\<close>; the component also tests it for being an
  object (\<open>typeof value === 'object'\<close>), so objects are part of the model: an object is
  represented by the list of its own enumerable keys, its property values being JSON data,
  none of which is callable.
\<close>

type_synonym jschar = "16 word"

type_synonym jsstring = "jschar list"

definition lit :: "string \<Rightarrow> jsstring" where
  "lit s = map of_char s"

datatype jsvalue = JNull | JString jsstring | JObject "jsstring list"

datatype error = TypeError

definition truthy :: "jsstring \<Rightarrow> bool" where
  "truthy s = (s \<noteq> [])"

section \<open>The language list\<close>

definition languages :: "jsstring list" where
  "languages = map lit
     [''css'', ''dockerfile'', ''graphql'', ''html'', ''javascript'', ''json'', ''kotlin'',
      ''markdown'', ''mysql'', ''php'', ''plaintext'', ''powerquery'', ''powershell'',
      ''python'', ''scss'', ''shell'', ''sql'', ''typescript'', ''xml'', ''yaml'']"

section \<open>The regular expression \<open>__(.+)__;\<close>\<close>

text \<open>
  \<open>languageRegExp = new RegExp('__(.+)__;')\<close> has no flags. Its matcher tries the start
  positions from left to right; at a start position it reads \<open>__\<close>, lets the greedy
  \<open>.+\<close> take as many code units other than line terminators as there are, and gives
  them back one at a time (never all of them) until \<open>__;\<close> follows.
\<close>

definition isLineTerminator :: "jschar \<Rightarrow> bool" where
  "isLineTerminator c = (c = 0x000A \<or> c = 0x000D \<or> c = 0x2028 \<or> c = 0x2029)"

definition dot :: "jschar \<Rightarrow> bool" where
  "dot c = (\<not> isLineTerminator c)"

definition marker_open :: jsstring where
  "marker_open = lit ''__''"

definition marker_close :: jsstring where
  "marker_close = lit ''__;''"

text \<open>\<open>backtrack t k\<close>: the greedy group has taken \<open>k\<close> code units of \<open>t\<close>; the length it
  ends with, if any.\<close>

fun backtrack :: "jsstring \<Rightarrow> nat \<Rightarrow> nat option" where
  "backtrack t 0 = None"
| "backtrack t (Suc k) =
     (if prefix marker_close (drop (Suc k) t) then Some (Suc k) else backtrack t k)"

text \<open>The match at the start of \<open>s\<close>: the captured group and what follows the match.\<close>

definition match_at :: "jsstring \<Rightarrow> (jsstring \<times> jsstring) option" where
  "match_at s =
     (if prefix marker_open s
      then (let t = drop (length marker_open) s in
            case backtrack t (length (takeWhile dot t)) of
              None \<Rightarrow> None
            | Some k \<Rightarrow> Some (take k t, drop (k + length marker_close) t))
      else None)"

text \<open>The first match in \<open>s\<close>, \<open>pre\<close> being what was skipped: the text before the
  match, the captured group and the text after the match.\<close>

fun exec_from :: "jsstring \<Rightarrow> jsstring \<Rightarrow> (jsstring \<times> jsstring \<times> jsstring) option" where
  "exec_from pre [] = None"
| "exec_from pre (c # cs) =
     (case match_at (c # cs) of
        Some (g, post) \<Rightarrow> Some (pre, g, post)
      | None \<Rightarrow> exec_from (pre @ [c]) cs)"

text \<open>\<open>s.match(languageRegExp)\<close>: the array of the matched text and the group, or null.\<close>

definition str_match :: "jsstring \<Rightarrow> jsstring list option" where
  "str_match s =
     (case exec_from [] s of
        None \<Rightarrow> None
      | Some (pre, g, post) \<Rightarrow> Some [marker_open @ g @ marker_close, g])"

text \<open>\<open>s.replace(languageRegExp, '')\<close>: the first match is cut out.\<close>

definition str_replace :: "jsstring \<Rightarrow> jsstring" where
  "str_replace s =
     (case exec_from [] s of
        None \<Rightarrow> s
      | Some (pre, g, post) \<Rightarrow> pre @ post)"

section \<open>Props\<close>

record options =
  opt_language :: "jsstring option"
  opt_defaultValue :: "jsstring option"

record attribute =
  customField :: jsstring
  options :: "options option"

record props =
  attribute :: attribute
  name :: jsstring
  val :: jsvalue

record change_event =
  target_name :: jsstring
  target_value :: jsstring

section \<open>The values computed on render\<close>

definition isJson :: "attribute \<Rightarrow> bool" where
  "isJson a = suffix (lit ''code-editor-json'') (customField a)"

definition languageFromOptions :: "attribute \<Rightarrow> jsstring option" where
  "languageFromOptions a = (case options a of None \<Rightarrow> None | Some os \<Rightarrow> opt_language os)"

text \<open>Whether \<open>languageFromOptions\<close> counts as true: it is defined and not empty.\<close>

definition configured :: "attribute \<Rightarrow> bool" where
  "configured a = (case languageFromOptions a of None \<Rightarrow> False | Some l \<Rightarrow> truthy l)"

definition defaultLanguage :: "attribute \<Rightarrow> jsstring" where
  "defaultLanguage a = (if isJson a then lit ''json'' else lit ''javascript'')"

text \<open>Calling \<open>match\<close> or \<open>replace\<close> on an object raises: the object has no such method.\<close>

definition languageFromValue :: "jsvalue \<Rightarrow> error + jsstring option" where
  "languageFromValue v =
     (case v of
        JNull \<Rightarrow> Inr None
      | JObject ks \<Rightarrow> Inl TypeError
      | JString s \<Rightarrow>
          if truthy s
          then (case str_match s of
                  None \<Rightarrow> Inr None
                | Some m \<Rightarrow> if length m > 1 then Inr (Some (m ! 1)) else Inr None)
          else Inr None)"

definition defaultValue :: "attribute \<Rightarrow> jsstring option" where
  "defaultValue a =
     (case options a of
        None \<Rightarrow> None
      | Some os \<Rightarrow>
          (case opt_defaultValue os of
             None \<Rightarrow> None
           | Some d \<Rightarrow> if truthy d then Some d else None))"

text \<open>\<open>value ? value.replace(languageRegExp, '') : ''\<close>\<close>

definition content :: "jsvalue \<Rightarrow> error + jsstring" where
  "content v =
     (case v of
        JNull \<Rightarrow> Inr []
      | JObject ks \<Rightarrow> Inl TypeError
      | JString s \<Rightarrow> if truthy s then Inr (str_replace s) else Inr [])"

text \<open>\<open>typeof value === 'object' && value && Object.keys(value).length === 0\<close>\<close>

definition isEmptyObject :: "jsvalue \<Rightarrow> bool" where
  "isEmptyObject v = (case v of JObject ks \<Rightarrow> length ks = 0 | _ \<Rightarrow> False)"

definition defaultValueForEditor :: "attribute \<Rightarrow> jsvalue \<Rightarrow> error + jsstring" where
  "defaultValueForEditor a v =
     (case content v of
        Inl e \<Rightarrow> Inl e
      | Inr d \<Rightarrow>
          (case defaultValue a of
             None \<Rightarrow> Inr d
           | Some dv \<Rightarrow>
               if \<not> truthy d \<or> (isJson a \<and> isEmptyObject v) then Inr dv else Inr d))"

text \<open>The stored value decoded: the language it names, and its content.\<close>

definition decode :: "jsvalue \<Rightarrow> error + (jsstring option \<times> jsstring)" where
  "decode v =
     (case languageFromValue v of
        Inl e \<Rightarrow> Inl e
      | Inr l \<Rightarrow> (case content v of Inl e \<Rightarrow> Inl e | Inr c \<Rightarrow> Inr (l, c)))"

section \<open>The debounced stream\<close>

text \<open>
  \<open>subject.pipe(debounceTime(1000)).subscribe(handleOnChange)\<close>: the subscription holds
  the last value pushed and the milliseconds left until it is due. A value pushed while
  nobody is subscribed is lost.
\<close>

record debounce =
  active :: bool
  pending :: "(jsstring \<times> nat) option"

definition subscribe :: debounce where
  "subscribe = \<lparr>active = True, pending = None\<rparr>"

definition next_value :: "jsstring \<Rightarrow> debounce \<Rightarrow> debounce" where
  "next_value v d = (if active d then d\<lparr>pending := Some (v, 1000)\<rparr> else d)"

definition unsubscribe :: "debounce \<Rightarrow> debounce" where
  "unsubscribe d = d\<lparr>active := False, pending := None\<rparr>"

text \<open>\<open>n\<close> milliseconds pass: the value that became due, if any, and the stream after.\<close>

definition advance :: "nat \<Rightarrow> debounce \<Rightarrow> jsstring option \<times> debounce" where
  "advance n d =
     (case pending d of
        None \<Rightarrow> (None, d)
      | Some (v, r) \<Rightarrow>
          if r \<le> n then (Some v, d\<lparr>pending := None\<rparr>)
          else (None, d\<lparr>pending := Some (v, r - n)\<rparr>))"

section \<open>The component\<close>

record component =
  language :: jsstring
  editorValue :: jsstring
  fullScreen :: bool
  prevValue :: jsvalue
  stream :: debounce
  changes :: "change_event list"

text \<open>The argument of \<open>subject.next\<close> in \<open>handleChange\<close>.\<close>

definition encoded :: "attribute \<Rightarrow> jsstring \<Rightarrow> jsstring \<Rightarrow> jsstring" where
  "encoded a l c =
     (if isJson a \<or> configured a then c
      else marker_open @ l @ marker_close @ c)"

text \<open>The value that \<open>handleChange\<close> keeps of its argument: \<open>value || ''\<close>.\<close>

definition valueToSet :: "jsstring option \<Rightarrow> jsstring" where
  "valueToSet v = (case v of None \<Rightarrow> [] | Some x \<Rightarrow> x)"

definition handleChange :: "attribute \<Rightarrow> jsstring option \<Rightarrow> component \<Rightarrow> component" where
  "handleChange a v s =
     s\<lparr>editorValue := valueToSet v,
       stream := next_value (encoded a (language s) (valueToSet v)) (stream s)\<rparr>"

definition handleOnChange :: "jsstring \<Rightarrow> jsstring \<Rightarrow> component \<Rightarrow> component" where
  "handleOnChange n v s =
     s\<lparr>changes := changes s @ [\<lparr>target_name = n, target_value = v\<rparr>],
       prevValue := JString v\<rparr>"

text \<open>\<open>x || y\<close> for a string \<open>x\<close> that may be undefined or null.\<close>

definition orElse :: "jsstring option \<Rightarrow> jsstring \<Rightarrow> jsstring" where
  "orElse x y = (case x of None \<Rightarrow> y | Some l \<Rightarrow> if truthy l then l else y)"

text \<open>The first render and the effect that runs after it.\<close>

definition mount :: "props \<Rightarrow> error + component" where
  "mount p =
     (case languageFromValue (val p) of
        Inl e \<Rightarrow> Inl e
      | Inr lfv \<Rightarrow>
          (case defaultValueForEditor (attribute p) (val p) of
             Inl e \<Rightarrow> Inl e
           | Inr d \<Rightarrow>
               (let l = orElse (languageFromOptions (attribute p))
                          (orElse lfv (defaultLanguage (attribute p)));
                    s = \<lparr>language = l, editorValue = d, fullScreen = False,
                         prevValue = val p, stream = subscribe, changes = []\<rparr>
                in Inr (if truthy d then handleChange (attribute p) (Some d) s else s))))"

text \<open>A later render with the prop \<open>value\<close>: the editor follows a value that changed.\<close>

definition rerender :: "jsvalue \<Rightarrow> component \<Rightarrow> error + component" where
  "rerender v s =
     (case languageFromValue v of
        Inl e \<Rightarrow> Inl e
      | Inr lfv \<Rightarrow>
          (case content v of
             Inl e \<Rightarrow> Inl e
           | Inr c \<Rightarrow> Inr (if prevValue s \<noteq> v then s\<lparr>prevValue := v, editorValue := c\<rparr> else s)))"

definition setFullScreen :: "component \<Rightarrow> component" where
  "setFullScreen s = s\<lparr>fullScreen := \<not> fullScreen s\<rparr>"

definition setLanguage :: "jsstring \<Rightarrow> component \<Rightarrow> component" where
  "setLanguage l s = s\<lparr>language := l\<rparr>"

definition elapse :: "jsstring \<Rightarrow> nat \<Rightarrow> component \<Rightarrow> component" where
  "elapse n ms s =
     (case advance ms (stream s) of
        (None, d) \<Rightarrow> s\<lparr>stream := d\<rparr>
      | (Some v, d) \<Rightarrow> handleOnChange n v (s\<lparr>stream := d\<rparr>))"

definition unmount :: "component \<Rightarrow> component" where
  "unmount s = s\<lparr>stream := unsubscribe (stream s)\<rparr>"

text \<open>
  What happens to a mounted component: the editor reports its text, the user picks a
  language (the selector is rendered only when the field is neither in JSON mode nor has
  a configured language) or presses the expand button, time passes, the component is
  torn down.
\<close>

datatype event =
    EditorChange "jsstring option"
  | SelectLanguage jsstring
  | ToggleFullScreen
  | Elapse nat
  | Unmount

fun step :: "props \<Rightarrow> event \<Rightarrow> component \<Rightarrow> component" where
  "step p (EditorChange v) s = handleChange (attribute p) v s"
| "step p (SelectLanguage l) s =
     (if \<not> isJson (attribute p) \<and> \<not> configured (attribute p) then setLanguage l s else s)"
| "step p ToggleFullScreen s = setFullScreen s"
| "step p (Elapse ms) s = elapse (name p) ms s"
| "step p Unmount s = unmount s"

fun run :: "props \<Rightarrow> event list \<Rightarrow> component \<Rightarrow> component" where
  "run p [] s = s"
| "run p (e # es) s = run p es (step p e s)"

section \<open>Layout\<close>

datatype styled = FullScreenDiv | NormalDiv

definition StyledDiv :: "component \<Rightarrow> styled" where
  "StyledDiv s = (if fullScreen s then FullScreenDiv else NormalDiv)"

definition height :: "component \<Rightarrow> string" where
  "height s = (if fullScreen s then ''80vh'' else ''30vh'')"

section \<open>Notions used in the statements\<close>

text \<open>The pattern occurs in \<open>s\<close>: \<open>__\<close>, one code unit or more of one line, \<open>__;\<close>.\<close>

definition occurs :: "jsstring \<Rightarrow> bool" where
  "occurs s =
     (\<exists>pre g post. s = pre @ marker_open @ g @ marker_close @ post \<and> g \<noteq> [] \<and> list_all dot g)"

definition isObject :: "jsvalue \<Rightarrow> bool" where
  "isObject v = (case v of JObject ks \<Rightarrow> True | _ \<Rightarrow> False)"

definition isEdit :: "event \<Rightarrow> bool" where
  "isEdit e = (case e of EditorChange v \<Rightarrow> True | _ \<Rightarrow> False)"

text \<open>Edits that follow one another: each comes \<open>gap\<close> milliseconds after the one before.\<close>

fun burst :: "(nat \<times> jsstring option) list \<Rightarrow> event list" where
  "burst [] = []"
| "burst ((gap, v) # r) = Elapse gap # EditorChange v # burst r"

text \<open>The time that passes in a list of events, and events that leave the stream alone
  but for the passing of time.\<close>

fun duration :: "event \<Rightarrow> nat" where
  "duration (Elapse ms) = ms"
| "duration e = 0"

definition elapsed :: "event list \<Rightarrow> nat" where
  "elapsed es = sum_list (map duration es)"

definition isQuiet :: "event \<Rightarrow> bool" where
  "isQuiet e = (case e of EditorChange v \<Rightarrow> False | Unmount \<Rightarrow> False | _ \<Rightarrow> True)"

section \<open>Sample fields\<close>

definition textField :: attribute where
  "textField =
     \<lparr>customField = lit ''plugin::strapi-code-editor-custom-field.code-editor-text'',
      options = None\<rparr>"

definition jsonField :: attribute where
  "jsonField =
     \<lparr>customField = lit ''plugin::strapi-code-editor-custom-field.code-editor-json'',
      options = None\<rparr>"

definition pythonField :: attribute where
  "pythonField =
     \<lparr>customField = lit ''plugin::strapi-code-editor-custom-field.code-editor-text'',
      options = Some \<lparr>opt_language = Some (lit ''python''), opt_defaultValue = None\<rparr>\<rparr>"

text \<open>The text \<open>{"a":1}\<close>.\<close>

definition sampleDefault :: jsstring where
  "sampleDefault = lit ''{'' @ [0x22] @ lit ''a'' @ [0x22] @ lit '':1}''"

definition jsonFieldWithDefault :: attribute where
  "jsonFieldWithDefault =
     \<lparr>customField = lit ''plugin::strapi-code-editor-custom-field.code-editor-json'',
      options = Some \<lparr>opt_language = None, opt_defaultValue = Some sampleDefault\<rparr>\<rparr>"

definition propsOf :: "attribute \<Rightarrow> jsvalue \<Rightarrow> props" where
  "propsOf a v = \<lparr>attribute = a, name = lit ''code'', val = v\<rparr>"

section \<open>The pattern found and not found\<close>

text \<open>
  The matcher agrees with what the pattern means: it finds a match exactly when the
  pattern occurs, the match it finds is the leftmost and there the longest, and a value
  \<open>__<l>__;<r>\<close> whose \<open>r\<close> has no \<open>__;\<close> in its first line is matched as \<open>l\<close>
  and \<open>r\<close>.
\<close>

lemma marker_open_list: "marker_open = [0x5F, 0x5F]"
  by (simp add: marker_open_def lit_def)

lemma marker_close_list: "marker_close = [0x5F, 0x5F, 0x3B]"
  by (simp add: marker_close_def lit_def)

lemma dot_marker_close: "\<forall>c\<in>set marker_close. dot c"
  by (simp add: marker_close_list dot_def isLineTerminator_def)

lemma backtrack_Some:
  "0 < k \<Longrightarrow> k \<le> n \<Longrightarrow> prefix marker_close (drop k t) \<Longrightarrow>
   \<forall>j. k < j \<and> j \<le> n \<longrightarrow> \<not> prefix marker_close (drop j t) \<Longrightarrow>
   backtrack t n = Some k"
proof (induction n)
  case 0
  then show ?case by simp
next
  case (Suc n)
  show ?case
  proof (cases "k = Suc n")
    case True
    with Suc.prems show ?thesis by simp
  next
    case False
    with Suc.prems have "k \<le> n" by simp
    moreover from Suc.prems False have "\<not> prefix marker_close (drop (Suc n) t)" by simp
    ultimately show ?thesis using Suc by simp
  qed
qed

lemma backtrack_sound:
  "backtrack t n = Some k \<Longrightarrow> 0 < k \<and> k \<le> n \<and> prefix marker_close (drop k t)"
  by (induction n) (auto split: if_splits)

lemma backtrack_None:
  "backtrack t n = None \<Longrightarrow> 0 < j \<Longrightarrow> j \<le> n \<Longrightarrow> \<not> prefix marker_close (drop j t)"
proof (induction n)
  case 0
  then show ?case by simp
next
  case (Suc n)
  then show ?case by (cases "j = Suc n") (auto split: if_splits)
qed

lemma prefix_stops_at_line_end:
  assumes "prefix m (xs @ ys)" and "\<forall>c\<in>set m. dot c" and "ys = [] \<or> \<not> dot (hd ys)"
  shows "prefix m xs"
proof -
  from assms(1) consider "prefix m xs" | us where "m = xs @ us" "prefix us ys"
    by (auto simp: prefix_append)
  then show ?thesis
  proof cases
    case 1
    then show ?thesis .
  next
    case 2
    show ?thesis
    proof (cases us)
      case Nil
      with 2 show ?thesis by simp
    next
      case (Cons u us')
      with 2 obtain ys' where "ys = u # ys'" by (cases ys) auto
      moreover from 2 Cons assms(2) have "dot u" by simp
      ultimately show ?thesis using assms(3) by simp
    qed
  qed
qed

lemma close_in_first_line:
  assumes "prefix marker_close (drop m r)" and "m \<le> length (takeWhile dot r)"
  shows "sublist marker_close (takeWhile dot r)"
proof -
  have r: "r = takeWhile dot r @ dropWhile dot r" by simp
  have "drop m r = drop m (takeWhile dot r) @ dropWhile dot r"
    using assms(2) by (subst r) (simp del: takeWhile_dropWhile_id)
  moreover have "dropWhile dot r = [] \<or> \<not> dot (hd (dropWhile dot r))"
    using hd_dropWhile by blast
  ultimately have "prefix marker_close (drop m (takeWhile dot r))"
    using assms(1) dot_marker_close prefix_stops_at_line_end by metis
  then show ?thesis
    using sublist_altdef' suffix_drop by blast
qed



lemma n_len:
  assumes "\<forall>c\<in>set l. dot c"
  shows "length (takeWhile dot (l @ marker_close @ r)) = length l + 3 + length (takeWhile dot r)"
proof -
  have "takeWhile dot (l @ marker_close @ r) = l @ takeWhile dot (marker_close @ r)"
    using assms by simp
  moreover have "takeWhile dot (marker_close @ r) = marker_close @ takeWhile dot r"
    using dot_marker_close by simp
  moreover have "length marker_close = 3" by (simp add: marker_close_list)
  ultimately show ?thesis by simp
qed

lemma no_close_1: "\<not> prefix marker_close (drop (Suc 0) (marker_close @ r))"
  by (simp add: marker_close_list)

lemma no_close_2: "\<not> prefix marker_close (drop (Suc (Suc 0)) (marker_close @ r))"
  by (simp add: marker_close_list)

lemma drop_past_close: "drop (Suc (Suc (Suc m))) (marker_close @ r) = drop m r"
  by (simp add: marker_close_list)

lemma three_cases: "i = 0 \<or> i = Suc 0 \<or> (\<exists>m. i = Suc (Suc m))"
  by arith

lemma far:
  assumes "\<forall>c\<in>set l. dot c" and "\<not> sublist marker_close (takeWhile dot r)"
    and "length l < j" and "j \<le> length (takeWhile dot (l @ marker_close @ r))"
  shows "\<not> prefix marker_close (drop j (l @ marker_close @ r))"
proof
  assume p: "prefix marker_close (drop j (l @ marker_close @ r))"
  from assms(3) obtain i where j: "j = length l + Suc i"
    using less_iff_Suc_add by auto
  have d: "drop j (l @ marker_close @ r) = drop (Suc i) (marker_close @ r)"
    unfolding j by simp
  from three_cases [of i] consider "i = 0" | "i = Suc 0" | m where "i = Suc (Suc m)"
    by blast
  then show False
  proof cases
    case 1
    with p d no_close_1 show False by simp
  next
    case 2
    with p d no_close_2 show False by simp
  next
    case 3
    with p d have "prefix marker_close (drop m r)" by (simp only: drop_past_close)
    moreover from assms(4) j 3 have "m \<le> length (takeWhile dot r)"
      unfolding n_len [OF assms(1)] by linarith
    ultimately show False using assms(2) close_in_first_line by blast
  qed
qed

lemma match_at_marker:
  assumes "l \<noteq> []" and "\<forall>c\<in>set l. dot c" and "\<not> sublist marker_close (takeWhile dot r)"
  shows "match_at (marker_open @ l @ marker_close @ r) = Some (l, r)"
proof -
  let ?t = "l @ marker_close @ r"
  let ?n = "length (takeWhile dot ?t)"
  have "backtrack ?t ?n = Some (length l)"
  proof (rule backtrack_Some)
    show "0 < length l" using assms(1) by simp
    show "length l \<le> ?n" unfolding n_len [OF assms(2)] by simp
    show "prefix marker_close (drop (length l) ?t)" by simp
    show "\<forall>j. length l < j \<and> j \<le> ?n \<longrightarrow> \<not> prefix marker_close (drop j ?t)"
      using far [OF assms(2,3)] by blast
  qed
  moreover have "drop (length marker_open) (marker_open @ ?t) = ?t" by simp
  moreover have "drop (length l + length marker_close) ?t = r" by simp
  ultimately show ?thesis
    unfolding match_at_def by (simp add: Let_def)
qed

lemma exec_from_marker:
  assumes "l \<noteq> []" and "\<forall>c\<in>set l. dot c" and "\<not> sublist marker_close (takeWhile dot r)"
  shows "exec_from pre (marker_open @ l @ marker_close @ r) = Some (pre, l, r)"
proof -
  obtain c cs where s: "marker_open @ l @ marker_close @ r = c # cs"
    by (simp add: marker_open_list)
  have "exec_from pre (c # cs) = Some (pre, l, r)"
    using match_at_marker [OF assms] unfolding s by simp
  then show ?thesis unfolding s .
qed

lemma prefix_drop: "prefix xs ys \<Longrightarrow> ys = xs @ drop (length xs) ys"
  by (auto simp: prefix_def)

lemma take_first_line:
  assumes "k \<le> length (takeWhile P t)"
  shows "take k t = take k (takeWhile P t)"
proof -
  have "take k (takeWhile P t @ dropWhile P t) = take k (takeWhile P t)"
    using assms by (simp del: takeWhile_dropWhile_id)
  then show ?thesis by simp
qed

lemma match_at_sound:
  assumes "match_at s = Some (g, post)"
  shows "s = marker_open @ g @ marker_close @ post \<and> g \<noteq> [] \<and> (\<forall>c\<in>set g. dot c)"
proof -
  define t where "t = drop (length marker_open) s"
  from assms have p: "prefix marker_open s"
    unfolding match_at_def by (simp split: if_splits)
  with assms obtain k where k: "backtrack t (length (takeWhile dot t)) = Some k"
    and g: "g = take k t" and post: "post = drop (k + length marker_close) t"
    unfolding match_at_def t_def by (auto simp: Let_def split: option.splits)
  from backtrack_sound [OF k] have k0: "0 < k" and kn: "k \<le> length (takeWhile dot t)"
    and pc: "prefix marker_close (drop k t)" by simp_all
  have s: "s = marker_open @ t" unfolding t_def using prefix_drop [OF p] .
  have "drop (length marker_close) (drop k t) = post"
    unfolding post by (simp add: add.commute)
  with prefix_drop [OF pc] have "drop k t = marker_close @ post" by simp
  then have "take k t @ drop k t = g @ marker_close @ post" unfolding g by simp
  then have t: "t = g @ marker_close @ post" by (simp only: append_take_drop_id)
  have gt: "g = take k (takeWhile dot t)" unfolding g using take_first_line [OF kn] .
  have "set g \<subseteq> set (takeWhile dot t)" unfolding gt by (rule set_take_subset)
  then have "\<forall>c\<in>set g. dot c" using set_takeWhileD by fastforce
  moreover have "length g = k" unfolding gt using kn by simp
  with k0 have "g \<noteq> []" by auto
  ultimately show ?thesis using s t by simp
qed

lemma exec_from_sound:
  "exec_from pre s = Some (pre', g, post) \<Longrightarrow>
   pre @ s = pre' @ marker_open @ g @ marker_close @ post \<and> g \<noteq> [] \<and> (\<forall>c\<in>set g. dot c)"
proof (induction pre s rule: exec_from.induct)
  case (1 pre)
  then show ?case by simp
next
  case (2 pre c cs)
  show ?case
  proof (cases "match_at (c # cs)")
    case None
    with 2 show ?thesis by simp
  next
    case (Some m)
    obtain g' post' where m: "m = (g', post')" by (cases m)
    with Some "2.prems" have "pre' = pre" "g' = g" "post' = post" by simp_all
    with Some m match_at_sound [of "c # cs" g post] show ?thesis by simp
  qed
qed

lemma exec_from_occurs: "exec_from pre s = Some (pre', g, post) \<Longrightarrow> occurs s"
proof (induction pre s rule: exec_from.induct)
  case (1 pre)
  then show ?case by simp
next
  case (2 pre c cs)
  show ?case
  proof (cases "match_at (c # cs)")
    case None
    with 2 have "occurs cs" by simp
    then obtain q h r where "cs = q @ marker_open @ h @ marker_close @ r" "h \<noteq> []" "list_all dot h"
      unfolding occurs_def by blast
    then have "c # cs = (c # q) @ marker_open @ h @ marker_close @ r \<and> h \<noteq> [] \<and> list_all dot h"
      by simp
    then show ?thesis unfolding occurs_def by blast
  next
    case (Some m)
    obtain g' post' where m: "m = (g', post')" by (cases m)
    from match_at_sound [of "c # cs" g' post'] Some m
    have "c # cs = [] @ marker_open @ g' @ marker_close @ post' \<and> g' \<noteq> [] \<and> list_all dot g'"
      by (simp add: list_all_iff)
    then show ?thesis unfolding occurs_def by blast
  qed
qed

lemma exec_from_None: "\<not> occurs s \<Longrightarrow> exec_from pre s = None"
proof (rule ccontr)
  assume n: "\<not> occurs s" and "exec_from pre s \<noteq> None"
  then obtain pre' g post where "exec_from pre s = Some (pre', g, post)"
    by (metis not_None_eq prod_cases3)
  with n exec_from_occurs show False by blast
qed

lemma occurs_sublist: "occurs s \<Longrightarrow> sublist marker_close s"
proof -
  assume "occurs s"
  then obtain pre g post where "s = (pre @ marker_open @ g) @ marker_close @ post"
    unfolding occurs_def by auto
  then show ?thesis unfolding sublist_def by blast
qed

lemma match_at_complete:
  assumes "g \<noteq> []" and "list_all dot g"
  shows "match_at (marker_open @ g @ marker_close @ post) \<noteq> None"
proof -
  let ?t = "g @ marker_close @ post"
  let ?n = "length (takeWhile dot ?t)"
  have d: "\<forall>c\<in>set g. dot c" using assms(2) by (simp add: list_all_iff)
  have "backtrack ?t ?n \<noteq> None"
  proof
    assume "backtrack ?t ?n = None"
    moreover have "0 < length g" using assms(1) by simp
    moreover have "length g \<le> ?n" unfolding n_len [OF d] by simp
    ultimately have "\<not> prefix marker_close (drop (length g) ?t)" by (rule backtrack_None)
    then show False by simp
  qed
  moreover have "drop (length marker_open) (marker_open @ ?t) = ?t" by simp
  ultimately show ?thesis unfolding match_at_def by (auto simp: Let_def)
qed

lemma exec_from_complete:
  assumes "g \<noteq> []" and "list_all dot g"
  shows "exec_from pre (q @ marker_open @ g @ marker_close @ post) \<noteq> None"
proof (induction q arbitrary: pre)
  case Nil
  obtain c cs where s: "marker_open @ g @ marker_close @ post = c # cs"
    by (simp add: marker_open_list)
  from match_at_complete [OF assms, of post] obtain m where "match_at (c # cs) = Some m"
    unfolding s by blast
  then have "exec_from pre (c # cs) \<noteq> None" by (cases m) simp
  then show ?case unfolding s by simp
next
  case (Cons c q)
  show ?case
  proof (cases "match_at (c # q @ marker_open @ g @ marker_close @ post)")
    case None
    with Cons show ?thesis by simp
  next
    case (Some m)
    then show ?thesis by (cases m) simp
  qed
qed

lemma exec_from_None_iff: "exec_from pre s = None \<longleftrightarrow> \<not> occurs s"
proof
  assume n: "exec_from pre s = None"
  show "\<not> occurs s"
  proof
    assume "occurs s"
    then obtain q g post where "s = q @ marker_open @ g @ marker_close @ post" "g \<noteq> []" "list_all dot g"
      unfolding occurs_def by blast
    with exec_from_complete [of g pre q post] n show False by simp
  qed
next
  assume "\<not> occurs s"
  then show "exec_from pre s = None" by (rule exec_from_None)
qed

text \<open>The match that \<open>exec_from\<close> returns is the first one, and the longest one there.\<close>

lemma backtrack_longest:
  "backtrack t n = Some k \<Longrightarrow> k < j \<Longrightarrow> j \<le> n \<Longrightarrow> \<not> prefix marker_close (drop j t)"
proof (induction n)
  case 0
  then show ?case by simp
next
  case (Suc n)
  then show ?case by (cases "j = Suc n") (auto split: if_splits)
qed

lemma match_at_longest:
  assumes "match_at (marker_open @ h @ marker_close @ r) = Some (g, post)"
    and "list_all dot h"
  shows "length h \<le> length g"
proof (rule ccontr)
  assume "\<not> length h \<le> length g"
  then have lt: "length g < length h" by simp
  let ?t = "h @ marker_close @ r"
  have d: "\<forall>c\<in>set h. dot c" using assms(2) by (simp add: list_all_iff)
  have t: "drop (length marker_open) (marker_open @ ?t) = ?t" by simp
  from assms(1) obtain k where k: "backtrack ?t (length (takeWhile dot ?t)) = Some k"
    and g: "g = take k ?t"
    unfolding match_at_def t by (auto simp: Let_def split: option.splits)
  from backtrack_sound [OF k] have "k \<le> length (takeWhile dot ?t)" by simp
  also have "\<dots> \<le> length ?t" by (rule length_takeWhile_le)
  finally have "length g = k" unfolding g by simp
  with lt have "k < length h" by simp
  moreover have "length h \<le> length (takeWhile dot ?t)" unfolding n_len [OF d] by simp
  ultimately have "\<not> prefix marker_close (drop (length h) ?t)"
    using backtrack_longest [OF k] by blast
  then show False by simp
qed

lemma exec_from_first_longest:
  assumes "exec_from pre s = Some (pre', g, post)"
    and "pre @ s = q @ marker_open @ h @ marker_close @ r"
    and "h \<noteq> []" and "list_all dot h" and "length pre \<le> length q"
  shows "length pre' < length q \<or> (length pre' = length q \<and> length h \<le> length g)"
  using assms
proof (induction pre s rule: exec_from.induct)
  case (1 pre)
  then show ?case by simp
next
  case (2 pre c cs)
  show ?case
  proof (cases "length pre = length q")
    case True
    with "2.prems"(2) have s: "c # cs = marker_open @ h @ marker_close @ r" by simp
    from match_at_complete [OF "2.prems"(3,4), of r] obtain m where m: "match_at (c # cs) = Some m"
      unfolding s by blast
    obtain g' post' where gp: "m = (g', post')" by (cases m)
    with m "2.prems"(1) have "pre' = pre" "g' = g" "post' = post" by simp_all
    with m gp match_at_longest [of h r g post] "2.prems"(4) s True show ?thesis by simp
  next
    case False
    with "2.prems"(5) have lt: "length pre < length q" by simp
    show ?thesis
    proof (cases "match_at (c # cs)")
      case None
      with "2.prems"(1) have e: "exec_from (pre @ [c]) cs = Some (pre', g, post)" by simp
      from lt have "length (pre @ [c]) \<le> length q" by simp
      with "2.IH" [OF None e] "2.prems"(2,3,4) show ?thesis by simp
    next
      case (Some m)
      obtain g' post' where "m = (g', post')" by (cases m)
      with Some "2.prems"(1) have "pre' = pre" by simp
      with lt show ?thesis by simp
    qed
  qed
qed

lemma decode_marker:
  assumes "l \<noteq> []" and "\<forall>c\<in>set l. dot c" and "\<not> sublist marker_close (takeWhile dot r)"
  shows "decode (JString (marker_open @ l @ marker_close @ r)) = Inr (Some l, r)"
proof -
  have "marker_open @ l @ marker_close @ r \<noteq> []" by (simp add: marker_open_list)
  then show ?thesis
    using exec_from_marker [OF assms, of "[]"]
    by (simp add: decode_def languageFromValue_def content_def truthy_def str_match_def
        str_replace_def)
qed

lemma decode_no_match:
  assumes "exec_from [] s = None"
  shows "decode (JString s) = Inr (None, s)"
  using assms
  by (simp add: decode_def languageFromValue_def content_def truthy_def str_match_def
      str_replace_def)

lemma languages_wf: "\<forall>l\<in>set languages. l \<noteq> [] \<and> (\<forall>c\<in>set l. dot c)"
  by (simp add: languages_def lit_def dot_def isLineTerminator_def)

section \<open>Mounting and running\<close>


lemma languageFromValue_nonempty:
  assumes "languageFromValue v = Inr (Some l)"
  shows "l \<noteq> []"
proof (cases v)
  case JNull
  with assms show ?thesis by (simp add: languageFromValue_def)
next
  case (JObject ks)
  with assms show ?thesis by (simp add: languageFromValue_def)
next
  case (JString s)
  with assms obtain pre post where "exec_from [] s = Some (pre, l, post)"
    by (auto simp: languageFromValue_def str_match_def split: if_splits option.splits)
  with exec_from_sound show ?thesis by blast
qed

lemma not_object_renders:
  assumes "\<not> isObject v"
  shows "\<exists>l c. languageFromValue v = Inr l \<and> content v = Inr c"
  using assms
  by (cases v) (auto simp: isObject_def languageFromValue_def content_def split: option.splits)

lemma defaultValueForEditor_content:
  assumes "content v = Inr c"
  shows "\<exists>d. defaultValueForEditor a v = Inr d"
  using assms by (simp add: defaultValueForEditor_def split: option.splits)

lemma mount_result:
  assumes "languageFromValue (val p) = Inr lfv"
    and "defaultValueForEditor (attribute p) (val p) = Inr d"
  shows "\<exists>s. mount p = Inr s
     \<and> language s = orElse (languageFromOptions (attribute p)) (orElse lfv (defaultLanguage (attribute p)))
     \<and> editorValue s = d \<and> fullScreen s = False \<and> changes s = [] \<and> active (stream s)
     \<and> pending (stream s) = (if d = [] then None else Some (encoded (attribute p) (language s) d, 1000))"
  using assms
  by (simp add: mount_def Let_def truthy_def handleChange_def valueToSet_def next_value_def
      subscribe_def)

lemma run_append: "run p (es @ fs) s = run p fs (run p es s)"
  by (induction es arbitrary: s) simp_all

lemma step_idle:
  assumes "pending (stream s) = None" and "\<not> isEdit e"
  shows "pending (stream (step p e s)) = None \<and> changes (step p e s) = changes s"
  using assms
  by (cases e)
    (simp_all add: isEdit_def setLanguage_def setFullScreen_def elapse_def advance_def
      unmount_def unsubscribe_def)

lemma run_idle:
  assumes "pending (stream s) = None" and "\<forall>e\<in>set es. \<not> isEdit e"
  shows "changes (run p es s) = changes s"
  using assms
proof (induction es arbitrary: s)
  case Nil
  then show ?case by simp
next
  case (Cons e es)
  from Cons.prems step_idle [of s e p]
  have "pending (stream (step p e s)) = None" and "changes (step p e s) = changes s"
    by simp_all
  with Cons show ?case by simp
qed

lemma step_closed:
  assumes "\<not> active (stream s)" and "pending (stream s) = None"
  shows "\<not> active (stream (step p e s)) \<and> pending (stream (step p e s)) = None
     \<and> changes (step p e s) = changes s"
  using assms
  by (cases e)
    (simp_all add: handleChange_def next_value_def setLanguage_def setFullScreen_def elapse_def
      advance_def unmount_def unsubscribe_def)

lemma run_closed:
  assumes "\<not> active (stream s)" and "pending (stream s) = None"
  shows "changes (run p es s) = changes s"
  using assms
proof (induction es arbitrary: s)
  case Nil
  then show ?case by simp
next
  case (Cons e es)
  from step_closed [OF Cons.prems, of p e] Cons.IH [of "step p e s"] show ?case by simp
qed

lemma burst_pending:
  assumes "active (stream s)" and "\<forall>g\<in>set (map fst r). g < 1000"
  shows "changes (run p (EditorChange v # burst r) s) = changes s
     \<and> language (run p (EditorChange v # burst r) s) = language s
     \<and> active (stream (run p (EditorChange v # burst r) s))
     \<and> pending (stream (run p (EditorChange v # burst r) s)) =
         Some (encoded (attribute p) (language s) (valueToSet (last (v # map snd r))), 1000)"
  using assms
proof (induction r arbitrary: s v)
  case Nil
  then show ?case by (simp add: handleChange_def next_value_def)
next
  case (Cons gv r)
  obtain g w where gv: "gv = (g, w)" by (cases gv)
  let ?s = "step p (Elapse g) (step p (EditorChange v) s)"
  from Cons.prems gv have g: "g < 1000" by simp
  with Cons.prems(1) have s': "active (stream ?s)" "changes ?s = changes s" "language ?s = language s"
    by (simp_all add: handleChange_def next_value_def elapse_def advance_def)
  from Cons.prems gv have "\<forall>g\<in>set (map fst r). g < 1000" by simp
  from Cons.IH [OF s'(1) this, of w] s'(2,3) gv show ?case by simp
qed

text \<open>What decoding yields, for every string: the first and there the longest occurrence of
  the pattern is cut out, its group being the language; without one the value is the content.\<close>

lemma decode_total:
  "(\<not> occurs s \<longrightarrow> decode (JString s) = Inr (None, s))
   \<and> (occurs s \<longrightarrow>
        (\<exists>pre g post. s = pre @ marker_open @ g @ marker_close @ post \<and> g \<noteq> [] \<and> list_all dot g
           \<and> (\<forall>q h r. s = q @ marker_open @ h @ marker_close @ r \<and> h \<noteq> [] \<and> list_all dot h
                 \<longrightarrow> length pre < length q \<or> (length pre = length q \<and> length h \<le> length g))
           \<and> decode (JString s) = Inr (Some g, pre @ post)))"
proof (intro conjI impI)
  assume "\<not> occurs s"
  then show "decode (JString s) = Inr (None, s)"
    using decode_no_match [of s] by (simp add: exec_from_None)
next
  assume o: "occurs s"
  then have "exec_from [] s \<noteq> None" using exec_from_None_iff by blast
  then obtain pre g post where e: "exec_from [] s = Some (pre, g, post)"
    by (metis not_None_eq prod_cases3)
  from exec_from_sound [OF e]
  have f: "s = pre @ marker_open @ g @ marker_close @ post" "g \<noteq> []" "\<forall>c\<in>set g. dot c"
    by simp_all
  then have ne: "s \<noteq> []" by (simp add: marker_open_list)
  have first: "\<forall>q h r. s = q @ marker_open @ h @ marker_close @ r \<and> h \<noteq> [] \<and> list_all dot h
      \<longrightarrow> length pre < length q \<or> (length pre = length q \<and> length h \<le> length g)"
    using exec_from_first_longest [OF e] by simp
  from e ne have d: "decode (JString s) = Inr (Some g, pre @ post)"
    by (simp add: decode_def languageFromValue_def content_def truthy_def str_match_def
        str_replace_def)
  from f(3) have "list_all dot g" by (simp add: list_all_iff)
  with f(1,2) first d
  have "s = pre @ marker_open @ g @ marker_close @ post \<and> g \<noteq> [] \<and> list_all dot g
      \<and> (\<forall>q h r. s = q @ marker_open @ h @ marker_close @ r \<and> h \<noteq> [] \<and> list_all dot h
            \<longrightarrow> length pre < length q \<or> (length pre = length q \<and> length h \<le> length g))
      \<and> decode (JString s) = Inr (Some g, pre @ post)"
    by blast
  then show "\<exists>pre g post. s = pre @ marker_open @ g @ marker_close @ post \<and> g \<noteq> []
      \<and> list_all dot g
      \<and> (\<forall>q h r. s = q @ marker_open @ h @ marker_close @ r \<and> h \<noteq> [] \<and> list_all dot h
            \<longrightarrow> length pre < length q \<or> (length pre = length q \<and> length h \<le> length g))
      \<and> decode (JString s) = Inr (Some g, pre @ post)"
    by blast
qed

text \<open>Where the encoding of \<open>handleChange\<close> is decoded to what was encoded.\<close>

lemma encoded_decodes:
  assumes "l \<in> set languages"
  shows "(\<not> isJson a \<and> \<not> configured a \<and> \<not> sublist marker_close (takeWhile dot c)
            \<longrightarrow> decode (JString (encoded a l c)) = Inr (Some l, c))
       \<and> ((isJson a \<or> configured a) \<and> \<not> occurs c
            \<longrightarrow> decode (JString (encoded a l c)) = Inr (None, c))"
proof (intro conjI impI)
  assume h: "\<not> isJson a \<and> \<not> configured a \<and> \<not> sublist marker_close (takeWhile dot c)"
  from assms languages_wf have "l \<noteq> []" and "\<forall>x\<in>set l. dot x" by auto
  with h decode_marker [of l c] show "decode (JString (encoded a l c)) = Inr (Some l, c)"
    by (simp add: encoded_def)
next
  assume h: "(isJson a \<or> configured a) \<and> \<not> occurs c"
  then have "exec_from [] c = None" by (simp add: exec_from_None)
  with h decode_no_match [of c] show "decode (JString (encoded a l c)) = Inr (None, c)"
    by (auto simp: encoded_def)
qed

text \<open>The default value takes the place of an empty content; an object never gets that far.\<close>

lemma default_value_when_empty:
  assumes "content (val p) = Inr []"
    and "options (attribute p) = Some os" and "opt_defaultValue os = Some dv"
  shows "\<exists>s. mount p = Inr s \<and> editorValue s = dv"
proof -
  from assms(1) have "\<not> isObject (val p)"
    by (cases "val p") (simp_all add: isObject_def content_def)
  from not_object_renders [OF this] obtain lfv where l: "languageFromValue (val p) = Inr lfv"
    by blast
  have d: "defaultValueForEditor (attribute p) (val p) = Inr dv"
    using assms by (simp add: defaultValueForEditor_def defaultValue_def truthy_def)
  from mount_result [OF l d] show ?thesis by blast
qed

lemma empty_object_never_defaulted:
  assumes "isEmptyObject v"
  shows "languageFromValue v = Inl TypeError \<and> content v = Inl TypeError
     \<and> defaultValueForEditor a v = Inl TypeError"
  using assms
  by (cases v)
    (simp_all add: isEmptyObject_def languageFromValue_def content_def defaultValueForEditor_def)

text \<open>Time passing over a pending value.\<close>

lemma step_quiet_pending:
  assumes "pending (stream s) = Some (x, k)" and "isQuiet e" and "duration e < k"
  shows "pending (stream (step p e s)) = Some (x, k - duration e)
     \<and> changes (step p e s) = changes s"
  using assms
  by (cases e)
    (simp_all add: isQuiet_def setLanguage_def setFullScreen_def elapse_def advance_def)

lemma step_quiet_due:
  assumes "pending (stream s) = Some (x, k)" and "isQuiet e" and "k \<le> duration e" and "0 < k"
  shows "pending (stream (step p e s)) = None
     \<and> changes (step p e s) = changes s @ [\<lparr>target_name = name p, target_value = x\<rparr>]"
proof (cases e)
  case (Elapse ms)
  with assms show ?thesis by (simp add: elapse_def advance_def handleOnChange_def)
next
  case (EditorChange v)
  with assms show ?thesis by (simp add: isQuiet_def)
next
  case Unmount
  with assms show ?thesis by (simp add: isQuiet_def)
next
  case (SelectLanguage l)
  with assms show ?thesis by simp
next
  case ToggleFullScreen
  with assms show ?thesis by simp
qed

lemma quiet_not_edit: "isQuiet e \<Longrightarrow> \<not> isEdit e"
  by (cases e) (simp_all add: isQuiet_def isEdit_def)

lemma run_quiet:
  assumes "pending (stream s) = Some (x, k)" and "0 < k" and "list_all isQuiet es"
  shows "(k \<le> elapsed es \<longrightarrow>
            changes (run p es s) = changes s @ [\<lparr>target_name = name p, target_value = x\<rparr>])
       \<and> (elapsed es < k \<longrightarrow> changes (run p es s) = changes s)"
  using assms
proof (induction es arbitrary: s k)
  case Nil
  then show ?case by (simp add: elapsed_def)
next
  case (Cons e es)
  from Cons.prems(3) have q: "isQuiet e" and qs: "list_all isQuiet es" by simp_all
  have el: "elapsed (e # es) = duration e + elapsed es" by (simp add: elapsed_def)
  show ?case
  proof (cases "k \<le> duration e")
    case True
    from step_quiet_due [OF Cons.prems(1) q True Cons.prems(2), of p]
    have n: "pending (stream (step p e s)) = None"
      and c: "changes (step p e s) = changes s @ [\<lparr>target_name = name p, target_value = x\<rparr>]"
      by simp_all
    from qs have "\<forall>e\<in>set es. \<not> isEdit e" using quiet_not_edit by (auto simp: list_all_iff)
    from run_idle [OF n this, of p] c True el show ?thesis by simp
  next
    case False
    then have lt: "duration e < k" by simp
    from step_quiet_pending [OF Cons.prems(1) q lt, of p]
    have n: "pending (stream (step p e s)) = Some (x, k - duration e)"
      and c: "changes (step p e s) = changes s" by simp_all
    from lt have "0 < k - duration e" by simp
    from Cons.IH [OF n this qs] c lt el show ?thesis by auto
  qed
qed

section \<open>The claims\<close>

lemmas eval_defs = lit_def truthy_def isLineTerminator_def dot_def marker_open_def marker_close_def
  match_at_def str_match_def str_replace_def isJson_def languageFromOptions_def configured_def
  defaultLanguage_def languageFromValue_def defaultValue_def content_def isEmptyObject_def
  defaultValueForEditor_def decode_def subscribe_def next_value_def unsubscribe_def advance_def
  encoded_def handleChange_def handleOnChange_def orElse_def mount_def rerender_def
  setFullScreen_def setLanguage_def elapse_def unmount_def valueToSet_def Let_def suffix_to_prefix
  textField_def jsonField_def pythonField_def jsonFieldWithDefault_def sampleDefault_def propsOf_def
  isObject_def isEdit_def languages_def

text \<open>
  C1: encoding a language of the enumerated set and a content, and decoding the result,
  is to give back the language and the content, or \<open>(null, content)\<close> in JSON mode or
  under a configured language. The code does not, for a content that holds \<open>__;\<close>: the
  tag that \<open>handleChange\<close> wrote is not the group that the greedy, unanchored pattern
  finds. A text field in language \<open>css\<close> with the content \<open>a__;b\<close> comes back as
  language \<open>css__;a\<close> and content \<open>b\<close>; the content \<open>a.__proto__;\<close> comes back empty;
  a JSON field with the content \<open>__x__;y\<close> comes back as language \<open>x\<close> and content \<open>y\<close>.
\<close>

theorem encode_decode_diverges:
  "decode (JString (encoded textField (lit ''css'') (lit ''a__;b'')))
     = Inr (Some (lit ''css__;a''), lit ''b'')
   \<and> decode (JString (encoded textField (lit ''javascript'') (lit ''a.__proto__;'')))
     = Inr (Some (lit ''javascript__;a.__proto''), [])
   \<and> decode (JString (encoded jsonField (lit ''json'') (lit ''__x__;y'')))
     = Inr (Some (lit ''x''), lit ''y'')"
  by (simp add: eval_defs)

text \<open>
  C2, read as "without an edit no change event is delivered", fails: the effect that runs
  on mount pushes a non-empty initial content, so a text field holding \<open>abc\<close> reports
  \<open>__javascript__;abc\<close> a second after the mount, without any edit.
\<close>

theorem no_edit_counterexample:
  "map_sum id (\<lambda>s. changes (run (propsOf textField (JString (lit ''abc''))) [Elapse 1000] s))
       (mount (propsOf textField (JString (lit ''abc''))))
     = Inr [\<lparr>target_name = lit ''code'', target_value = lit ''__javascript__;abc''\<rparr>]"
  by (simp add: eval_defs)

text \<open>
  C2 (amended): if nothing is pushed on the debounced stream, that is, the initial editor
  content is empty, so that the mount effect pushes nothing, and no edit occurs, then no
  change event is ever delivered to the host's \<open>onChange\<close>.
\<close>

theorem no_push_no_change:
  assumes "mount p = Inr s" and "editorValue s = []" and "\<forall>e\<in>set es. \<not> isEdit e"
  shows "changes (run p es s) = []"
proof -
  from assms(1) obtain lfv d where l: "languageFromValue (val p) = Inr lfv"
    and d: "defaultValueForEditor (attribute p) (val p) = Inr d"
    by (auto simp: mount_def split: sum.splits)
  from mount_result [OF l d] assms(1,2) have "changes s = []" and "pending (stream s) = None"
    by auto
  with run_idle [OF _ assms(3), of s p] show ?thesis by simp
qed

text \<open>C2 at a text field with a null value, through toggles, a language choice and time.\<close>

theorem no_push_no_change_witness:
  "mount (propsOf textField JNull)
     = Inr \<lparr>language = lit ''javascript'', editorValue = [], fullScreen = False,
            prevValue = JNull, stream = subscribe, changes = []\<rparr>
   \<and> list_all (\<lambda>e. \<not> isEdit e)
         [ToggleFullScreen, Elapse 5000, SelectLanguage (lit ''css''), Elapse 5000, Unmount]
   \<and> changes (run (propsOf textField JNull)
        [ToggleFullScreen, Elapse 5000, SelectLanguage (lit ''css''), Elapse 5000, Unmount]
        \<lparr>language = lit ''javascript'', editorValue = [], fullScreen = False,
         prevValue = JNull, stream = subscribe, changes = []\<rparr>) = []"
proof -
  let ?s = "\<lparr>language = lit ''javascript'', editorValue = [], fullScreen = False,
            prevValue = JNull, stream = subscribe, changes = []\<rparr>"
  have m: "mount (propsOf textField JNull) = Inr ?s" by (simp add: eval_defs)
  have v: "editorValue ?s = []" by simp
  have e: "\<forall>e\<in>set [ToggleFullScreen, Elapse 5000, SelectLanguage (lit ''css''), Elapse 5000, Unmount].
      \<not> isEdit e" by (simp add: isEdit_def)
  from no_push_no_change [OF m v e] m e show ?thesis by (simp add: list_all_iff)
qed

text \<open>
  C3: a stored value that has the marker form \<open>__<lang>__;<rest>\<close> is to decode to
  \<open>(lang, rest)\<close>, and any other value to \<open>(null, value)\<close>. The code does not: the
  pattern is not anchored, so \<open>x__css__;y\<close>, which does not have the marker form, decodes
  to \<open>(css, xy)\<close>; and the group is greedy, so \<open>__a__;b__;c\<close> decodes to \<open>(a__;b, c)\<close>.
\<close>

theorem decode_diverges:
  "decode (JString (lit ''x__css__;y'')) = Inr (Some (lit ''css''), lit ''xy'')
   \<and> decode (JString (lit ''__a__;b__;c'')) = Inr (Some (lit ''a__;b''), lit ''c'')"
  by (simp add: eval_defs)

text \<open>
  C4: \<open>handleChange\<close> keeps the edited content and pushes it unchanged if JSON mode is
  active or a language is configured, and otherwise pushes \<open>__<language>__;<content>\<close>,
  the language being the current language state.
\<close>

theorem handleChange_encodes:
  "editorValue (handleChange a v s) = valueToSet v
   \<and> (active (stream s) \<longrightarrow>
        (isJson a \<or> configured a \<longrightarrow>
           pending (stream (handleChange a v s)) = Some (valueToSet v, 1000))
        \<and> (\<not> (isJson a \<or> configured a) \<longrightarrow>
           pending (stream (handleChange a v s))
             = Some (marker_open @ language s @ marker_close @ valueToSet v, 1000)))"
  by (simp add: handleChange_def next_value_def encoded_def)

text \<open>C4 at a JSON field and at a text field whose language is \<open>css\<close>.\<close>

theorem handleChange_encodes_witness:
  "active (stream \<lparr>language = lit ''css'', editorValue = [], fullScreen = False,
            prevValue = JNull, stream = subscribe, changes = []\<rparr>)
   \<and> isJson jsonField \<and> \<not> (isJson textField \<or> configured textField)
   \<and> pending (stream (handleChange jsonField (Some (lit ''{}''))
        \<lparr>language = lit ''css'', editorValue = [], fullScreen = False,
         prevValue = JNull, stream = subscribe, changes = []\<rparr>)) = Some (lit ''{}'', 1000)
   \<and> pending (stream (handleChange textField (Some (lit ''a{}''))
        \<lparr>language = lit ''css'', editorValue = [], fullScreen = False,
         prevValue = JNull, stream = subscribe, changes = []\<rparr>)) = Some (lit ''__css__;a{}'', 1000)"
proof -
  let ?s = "\<lparr>language = lit ''css'', editorValue = [], fullScreen = False,
            prevValue = JNull, stream = subscribe, changes = []\<rparr>"
  have a: "active (stream ?s)" by (simp add: subscribe_def)
  have j: "isJson jsonField" and t: "\<not> (isJson textField \<or> configured textField)"
    by (simp_all add: eval_defs)
  from handleChange_encodes [of jsonField "Some (lit ''{}'')" ?s] a j
  have "pending (stream (handleChange jsonField (Some (lit ''{}'')) ?s)) = Some (lit ''{}'', 1000)"
    by (simp add: valueToSet_def)
  moreover from handleChange_encodes [of textField "Some (lit ''a{}'')" ?s] a t
  have "pending (stream (handleChange textField (Some (lit ''a{}'')) ?s))
      = Some (lit ''__css__;a{}'', 1000)"
    by (simp add: valueToSet_def marker_open_def marker_close_def lit_def)
  ultimately show ?thesis using a j t by blast
qed

text \<open>
  C5: edits of which each follows the one before by less than 1000 ms (pushes that all
  fall within one window of 1000 ms are such edits), followed by anything but an edit
  or the teardown, deliver exactly one change event to the host's handler once 1000 ms
  have passed since the last edit, however the time is cut up and however long it goes
  on; the event carries the last pushed value, encoded. Before 1000 ms have passed they
  deliver none.
\<close>

theorem burst_one_change:
  assumes "active (stream s)" and "\<forall>g\<in>set (map fst r). g < 1000"
    and "list_all isQuiet rest"
  shows "(1000 \<le> elapsed rest \<longrightarrow>
            changes (run p (EditorChange v # burst r @ rest) s)
              = changes s @ [\<lparr>target_name = name p,
                  target_value =
                    encoded (attribute p) (language s) (valueToSet (last (v # map snd r)))\<rparr>])
       \<and> (elapsed rest < 1000 \<longrightarrow>
            changes (run p (EditorChange v # burst r @ rest) s) = changes s)"
proof -
  let ?s = "run p (EditorChange v # burst r) s"
  from burst_pending [OF assms(1,2), of p v]
  have c: "changes ?s = changes s"
    and n: "pending (stream ?s)
      = Some (encoded (attribute p) (language s) (valueToSet (last (v # map snd r))), 1000)"
    by simp_all
  have "run p (EditorChange v # burst r @ rest) s = run p rest ?s"
    using run_append [of p "EditorChange v # burst r" rest s] by simp
  with run_quiet [OF n _ assms(3), of p] c show ?thesis by simp
qed

text \<open>C5 at three edits, 300 and 400 ms apart, and then 600 ms twice and more, or 999 ms.\<close>

theorem burst_one_change_witness:
  "active (stream \<lparr>language = lit ''css'', editorValue = [], fullScreen = False,
            prevValue = JNull, stream = subscribe, changes = []\<rparr>)
   \<and> list_all (\<lambda>g. g < (1000::nat)) (map fst [(300, Some (lit ''ab'')), (400, Some (lit ''abc''))])
   \<and> list_all isQuiet
        [Elapse 600, ToggleFullScreen, Elapse 600, SelectLanguage (lit ''sql''), Elapse 5000,
         Elapse 5000]
   \<and> 1000 \<le> elapsed
        [Elapse 600, ToggleFullScreen, Elapse 600, SelectLanguage (lit ''sql''), Elapse 5000,
         Elapse 5000]
   \<and> changes (run (propsOf textField JNull)
        (EditorChange (Some (lit ''a''))
           # burst [(300, Some (lit ''ab'')), (400, Some (lit ''abc''))]
           @ [Elapse 600, ToggleFullScreen, Elapse 600, SelectLanguage (lit ''sql''), Elapse 5000,
              Elapse 5000])
        \<lparr>language = lit ''css'', editorValue = [], fullScreen = False,
         prevValue = JNull, stream = subscribe, changes = []\<rparr>)
     = [\<lparr>target_name = lit ''code'', target_value = lit ''__css__;abc''\<rparr>]
   \<and> list_all isQuiet [Elapse 600, Elapse 399]
   \<and> elapsed [Elapse 600, Elapse 399] < 1000
   \<and> changes (run (propsOf textField JNull)
        (EditorChange (Some (lit ''a''))
           # burst [(300, Some (lit ''ab'')), (400, Some (lit ''abc''))]
           @ [Elapse 600, Elapse 399])
        \<lparr>language = lit ''css'', editorValue = [], fullScreen = False,
         prevValue = JNull, stream = subscribe, changes = []\<rparr>)
     = []"
proof -
  let ?s = "\<lparr>language = lit ''css'', editorValue = [], fullScreen = False,
            prevValue = JNull, stream = subscribe, changes = []\<rparr>"
  let ?r = "[(300::nat, Some (lit ''ab'')), (400, Some (lit ''abc''))]"
  let ?long = "[Elapse 600, ToggleFullScreen, Elapse 600, SelectLanguage (lit ''sql''),
                Elapse 5000, Elapse 5000]"
  let ?short = "[Elapse 600, Elapse 399]"
  have a: "active (stream ?s)" by (simp add: subscribe_def)
  have g: "\<forall>g\<in>set (map fst ?r). g < (1000::nat)" by simp
  have ql: "list_all isQuiet ?long" and qs: "list_all isQuiet ?short"
    by (simp_all add: isQuiet_def)
  have el: "1000 \<le> elapsed ?long" and es: "elapsed ?short < 1000"
    by (simp_all add: elapsed_def)
  have v: "encoded (attribute (propsOf textField JNull)) (language ?s)
      (valueToSet (last (Some (lit ''a'') # map snd ?r))) = lit ''__css__;abc''"
    by (simp add: eval_defs)
  have n: "name (propsOf textField JNull) = lit ''code''" by (simp add: propsOf_def)
  from burst_one_change [OF a g ql, of "propsOf textField JNull" "Some (lit ''a'')"] el v n
  have "changes (run (propsOf textField JNull)
          (EditorChange (Some (lit ''a'')) # burst ?r @ ?long) ?s)
      = [\<lparr>target_name = lit ''code'', target_value = lit ''__css__;abc''\<rparr>]"
    by simp
  moreover from burst_one_change [OF a g qs, of "propsOf textField JNull" "Some (lit ''a'')"] es
  have "changes (run (propsOf textField JNull)
          (EditorChange (Some (lit ''a'')) # burst ?r @ ?short) ?s) = []"
    by simp
  ultimately show ?thesis using a g ql qs el es by (simp add: list_all_iff)
qed

text \<open>
  C6: for every configured language, stored value (null or a string) and field type, the
  initial language is the configured language if there is one; otherwise the language
  decoded from the stored value if there is one; otherwise \<open>json\<close> in JSON mode and
  \<open>javascript\<close> else.
\<close>

theorem initial_language_priority:
  assumes "\<not> isObject (val p)"
  shows "\<exists>s lfv. mount p = Inr s \<and> languageFromValue (val p) = Inr lfv
     \<and> (\<forall>l. languageFromOptions (attribute p) = Some l \<and> l \<noteq> [] \<longrightarrow> language s = l)
     \<and> (\<not> configured (attribute p) \<longrightarrow>
          (\<forall>l. lfv = Some l \<longrightarrow> language s = l)
          \<and> (lfv = None \<and> isJson (attribute p) \<longrightarrow> language s = lit ''json'')
          \<and> (lfv = None \<and> \<not> isJson (attribute p) \<longrightarrow> language s = lit ''javascript''))"
proof -
  from not_object_renders [OF assms] obtain lfv c where l: "languageFromValue (val p) = Inr lfv"
    and "content (val p) = Inr c" by blast
  then obtain d where "defaultValueForEditor (attribute p) (val p) = Inr d"
    using defaultValueForEditor_content by blast
  from mount_result [OF l this] obtain s where m: "mount p = Inr s"
    and s: "language s = orElse (languageFromOptions (attribute p)) (orElse lfv (defaultLanguage (attribute p)))"
    by blast
  have "\<forall>x. languageFromOptions (attribute p) = Some x \<and> x \<noteq> [] \<longrightarrow> language s = x"
    unfolding s by (simp add: orElse_def truthy_def)
  moreover have "\<forall>x. lfv = Some x \<longrightarrow> language s = x" if "\<not> configured (attribute p)"
    using that l languageFromValue_nonempty [of "val p"] unfolding s
    by (auto simp: orElse_def configured_def truthy_def split: option.splits)
  moreover have "language s = lit ''json''"
    if "\<not> configured (attribute p)" "lfv = None \<and> isJson (attribute p)"
    using that unfolding s
    by (auto simp: orElse_def configured_def defaultLanguage_def split: option.splits)
  moreover have "language s = lit ''javascript''"
    if "\<not> configured (attribute p)" "lfv = None \<and> \<not> isJson (attribute p)"
    using that unfolding s
    by (auto simp: orElse_def configured_def defaultLanguage_def split: option.splits)
  ultimately show ?thesis using m l by blast
qed

text \<open>C6 at a field configured for Python, and at a JSON field with a null value.\<close>

theorem initial_language_priority_witness:
  "\<not> isObject (val (propsOf pythonField (JString (lit ''__css__;x''))))
   \<and> languageFromOptions (attribute (propsOf pythonField (JString (lit ''__css__;x''))))
       = Some (lit ''python'')
   \<and> lit ''python'' \<noteq> []
   \<and> (\<exists>s. mount (propsOf pythonField (JString (lit ''__css__;x''))) = Inr s
          \<and> language s = lit ''python'')
   \<and> \<not> isObject (val (propsOf jsonField JNull))
   \<and> \<not> configured (attribute (propsOf jsonField JNull))
   \<and> languageFromValue (val (propsOf jsonField JNull)) = Inr None
   \<and> isJson (attribute (propsOf jsonField JNull))
   \<and> (\<exists>s. mount (propsOf jsonField JNull) = Inr s \<and> language s = lit ''json'')"
proof -
  let ?p = "propsOf pythonField (JString (lit ''__css__;x''))"
  let ?q = "propsOf jsonField JNull"
  have p: "\<not> isObject (val ?p)" and o: "languageFromOptions (attribute ?p) = Some (lit ''python'')"
    and n: "lit ''python'' \<noteq> []"
    by (simp_all add: eval_defs)
  have q: "\<not> isObject (val ?q)" and c: "\<not> configured (attribute ?q)"
    and v: "languageFromValue (val ?q) = Inr None" and j: "isJson (attribute ?q)"
    by (simp_all add: eval_defs)
  from initial_language_priority [OF p] o n
  have "\<exists>s. mount ?p = Inr s \<and> language s = lit ''python''" by blast
  moreover from initial_language_priority [OF q] c v j
  have "\<exists>s. mount ?q = Inr s \<and> language s = lit ''json''" by (metis sum.inject(2))
  ultimately show ?thesis using p o n q c v j by blast
qed

text \<open>
  C7: with an empty decoded content and a configured default value the initial editor
  content is to be the default value, and so for a JSON-mode field whose stored value is
  \<open>{}\<close> and whose configured default is \<open>{"a":1}\<close>. The code tests for just that (JSON
  mode, an object without keys, a default value) when it computes the initial content,
  but never gets there: the first render has called \<open>value.match\<close> on the object before,
  which raises.
\<close>

theorem empty_object_raises:
  "isJson jsonFieldWithDefault \<and> isEmptyObject (JObject [])
   \<and> defaultValue jsonFieldWithDefault = Some sampleDefault
   \<and> languageFromValue (JObject []) = Inl TypeError
   \<and> mount (propsOf jsonFieldWithDefault (JObject [])) = Inl TypeError"
  by (simp add: eval_defs)

text \<open>
  C8: whatever happened before the teardown and whatever happens after it, the change
  events delivered are those delivered before the teardown; a value pushed less than
  1000 ms before the teardown is never delivered.
\<close>

theorem unmount_stops_changes:
  "changes (run p (before @ Unmount # after) s) = changes (run p before s)
   \<and> (active (stream s) \<and> g < 1000 \<longrightarrow>
        changes (run p (EditorChange v # Elapse g # Unmount # after) s) = changes s)"
proof (intro conjI impI)
  let ?s = "step p Unmount (run p before s)"
  have "\<not> active (stream ?s)" and "pending (stream ?s) = None"
    by (simp_all add: unmount_def unsubscribe_def)
  from run_closed [OF this, of p after] have "changes (run p after ?s) = changes (run p before s)"
    by (simp add: unmount_def)
  then show "changes (run p (before @ Unmount # after) s) = changes (run p before s)"
    by (simp add: run_append)
next
  assume h: "active (stream s) \<and> g < 1000"
  let ?t = "step p (Elapse g) (step p (EditorChange v) s)"
  let ?s = "step p Unmount ?t"
  from h have t: "changes ?t = changes s"
    by (simp add: handleChange_def next_value_def elapse_def advance_def)
  have "\<not> active (stream ?s)" and "pending (stream ?s) = None"
    by (simp_all add: unmount_def unsubscribe_def)
  from run_closed [OF this, of p after] t
  show "changes (run p (EditorChange v # Elapse g # Unmount # after) s) = changes s"
    by (simp add: unmount_def)
qed

text \<open>C8 at an edit 999 ms before the teardown.\<close>

theorem unmount_stops_changes_witness:
  "active (stream \<lparr>language = lit ''css'', editorValue = [], fullScreen = False,
            prevValue = JNull, stream = subscribe, changes = []\<rparr>)
   \<and> (999::nat) < 1000
   \<and> changes (run (propsOf textField JNull)
        [EditorChange (Some (lit ''a'')), Elapse 999, Unmount, Elapse 1,
         EditorChange (Some (lit ''ab'')), Elapse 5000]
        \<lparr>language = lit ''css'', editorValue = [], fullScreen = False,
         prevValue = JNull, stream = subscribe, changes = []\<rparr>) = []"
proof -
  let ?s = "\<lparr>language = lit ''css'', editorValue = [], fullScreen = False,
            prevValue = JNull, stream = subscribe, changes = []\<rparr>"
  have a: "active (stream ?s)" by (simp add: subscribe_def)
  have g: "(999::nat) < 1000" by simp
  from unmount_stops_changes [of "propsOf textField JNull" "[]"
      "[Elapse 1, EditorChange (Some (lit ''ab'')), Elapse 5000]" ?s 999 "Some (lit ''a'')"] a g
  show ?thesis by simp
qed

text \<open>
  C9: from any component state, two presses of the expand button return the full-screen
  flag, and with it the layout, to what it was; a press changes neither the editor content
  nor the language, and the render that follows it, the stored value being the one last
  seen, changes nothing more.
\<close>

theorem toggle_twice:
  "fullScreen (step p ToggleFullScreen (step p ToggleFullScreen s)) = fullScreen s
   \<and> StyledDiv (step p ToggleFullScreen (step p ToggleFullScreen s)) = StyledDiv s
   \<and> height (step p ToggleFullScreen (step p ToggleFullScreen s)) = height s
   \<and> step p ToggleFullScreen (step p ToggleFullScreen s) = s
   \<and> fullScreen (step p ToggleFullScreen s) = (\<not> fullScreen s)
   \<and> editorValue (step p ToggleFullScreen s) = editorValue s
   \<and> language (step p ToggleFullScreen s) = language s
   \<and> (\<not> isObject (prevValue s) \<longrightarrow>
        rerender (prevValue s) (step p ToggleFullScreen s) = Inr (step p ToggleFullScreen s))"
proof -
  have "rerender (prevValue s) (setFullScreen s) = Inr (setFullScreen s)"
    if "\<not> isObject (prevValue s)"
    using not_object_renders [OF that]
    by (auto simp: rerender_def setFullScreen_def)
  then show ?thesis
    by (simp add: setFullScreen_def StyledDiv_def height_def)
qed

text \<open>C9 at a component whose last seen value is null.\<close>

theorem toggle_twice_witness:
  "\<not> isObject (prevValue \<lparr>language = lit ''css'', editorValue = lit ''a{}'', fullScreen = False,
            prevValue = JNull, stream = subscribe, changes = []\<rparr>)
   \<and> rerender JNull (step (propsOf textField JNull) ToggleFullScreen
        \<lparr>language = lit ''css'', editorValue = lit ''a{}'', fullScreen = False,
         prevValue = JNull, stream = subscribe, changes = []\<rparr>)
     = Inr \<lparr>language = lit ''css'', editorValue = lit ''a{}'', fullScreen = True,
         prevValue = JNull, stream = subscribe, changes = []\<rparr>"
proof -
  let ?s = "\<lparr>language = lit ''css'', editorValue = lit ''a{}'', fullScreen = False,
            prevValue = JNull, stream = subscribe, changes = []\<rparr>"
  have n: "\<not> isObject (prevValue ?s)" by (simp add: isObject_def)
  from toggle_twice [of "propsOf textField JNull" ?s] n show ?thesis
    by (simp add: setFullScreen_def)
qed




end
